theory Spec2Isabelle
  imports Main
begin

section \<open>The vote store of main.go\<close>

text \<open>
  The service keeps two package-level maps, \<open>voteCounts\<close> (label to count) and
  \<open>userVotes\<close> (user identifier to label), and two HTTP handlers that work on them.
  The handlers are embedded as functions from a request and the two maps to a response
  and the two maps. Every handler body that touches the maps runs under one mutex, so a
  run of the service is a sequence of handler calls, each applied to the maps the
  previous one left.

  Go strings are byte strings and are compared bytewise; a \<open>string\<close> here is the list of
  the bytes. Go's \<open>int\<close> is 32 or 64 bits wide; a counter moves by one per request, so
  it can wrap only after \<open>2^31\<close> accepted requests to one process. The counters are
  modelled as mathematical integers, and the theorems below are about runs that stay
  under that bound (see \<open>run_counter_range\<close>).
\<close>

subsection \<open>Data\<close>

record VoteRequest =
  UserID :: string
  Vote :: string

record store =
  voteCounts :: "string \<rightharpoonup> int"
  userVotes :: "string \<rightharpoonup> string"

text \<open>
  The three labels of the map literal at lines 22-26, as their UTF-8 bytes. The spec
  calls them Hot, Mild and Cold, in the order of the literal.
\<close>

definition Hot :: string where
  "Hot = [CHR 0xE3, CHR 0x81, CHR 0x82, CHR 0xE3, CHR 0x81, CHR 0xA4,
          CHR 0xE3, CHR 0x81, CHR 0x84]"

definition Mild :: string where
  "Mild = [CHR 0xE3, CHR 0x81, CHR 0xA1, CHR 0xE3, CHR 0x82, CHR 0x87,
           CHR 0xE3, CHR 0x81, CHR 0x86, CHR 0xE3, CHR 0x81, CHR 0xA9,
           CHR 0xE3, CHR 0x82, CHR 0x88, CHR 0xE3, CHR 0x81, CHR 0x84]"

definition Cold :: string where
  "Cold = [CHR 0xE3, CHR 0x81, CHR 0x95, CHR 0xE3, CHR 0x82, CHR 0x80,
           CHR 0xE3, CHR 0x81, CHR 0x84]"

definition categories :: "string set" where
  "categories = {Hot, Mild, Cold}"

text \<open>The package-level variables as the process starts (lines 20-33).\<close>

definition initial :: store where
  "initial = \<lparr>voteCounts = [Hot \<mapsto> 0, Mild \<mapsto> 0, Cold \<mapsto> 0], userVotes = Map.empty\<rparr>"

subsection \<open>Requests and responses\<close>

text \<open>
  A request is its method and the outcome of \<open>json.NewDecoder(r.Body).Decode(&req)\<close>:
  the decoder is library code, so its result is part of the input, \<open>Inl\<close> the error's
  text and \<open>Inr\<close> the decoded struct. A field missing from the JSON object decodes to
  the empty string.
\<close>

record request =
  Method :: string
  Body :: "string + VoteRequest"

datatype payload = Text string | Counts "string \<rightharpoonup> int"

record response =
  Status :: nat
  Payload :: payload

definition http_Error :: "string \<Rightarrow> nat \<Rightarrow> response" where
  "http_Error msg code = \<lparr>Status = code, Payload = Text msg\<rparr>"

subsection \<open>Go map operations on the counters\<close>

text \<open>
  Reading a missing key of a Go map gives the zero value, and \<open>m[k]++\<close>, \<open>m[k]--\<close> are
  \<open>m[k] = m[k] + 1\<close>, \<open>m[k] = m[k] - 1\<close>: on a missing key they create it.
\<close>

definition index :: "(string \<rightharpoonup> int) \<Rightarrow> string \<Rightarrow> int" where
  "index m k = (case m k of None \<Rightarrow> 0 | Some v \<Rightarrow> v)"

definition decrement :: "(string \<rightharpoonup> int) \<Rightarrow> string \<Rightarrow> (string \<rightharpoonup> int)" where
  "decrement m k = m(k \<mapsto> index m k - 1)"

definition increment :: "(string \<rightharpoonup> int) \<Rightarrow> string \<Rightarrow> (string \<rightharpoonup> int)" where
  "increment m k = m(k \<mapsto> index m k + 1)"

subsection \<open>The handlers\<close>

definition voteHandler :: "request \<Rightarrow> store \<Rightarrow> response \<times> store" where
  "voteHandler r s =
     (if Method r \<noteq> ''POST'' then (http_Error ''Invalid request method'' 405, s)
      else case Body r of
        Inl err \<Rightarrow> (http_Error err 400, s)
      | Inr req \<Rightarrow>
          if voteCounts s (Vote req) = None
          then (http_Error ''Invalid vote option'' 400, s)
          else
            let counts1 =
                  (case userVotes s (UserID req) of
                     Some previousVote \<Rightarrow>
                       if previousVote \<noteq> Vote req
                       then decrement (voteCounts s) previousVote
                       else voteCounts s
                   | None \<Rightarrow> voteCounts s);
                counts2 = increment counts1 (Vote req);
                votes2 = (userVotes s)(UserID req \<mapsto> Vote req)
            in (\<lparr>Status = 200, Payload = Text ''Vote recorded successfully''\<rparr>,
                \<lparr>voteCounts = counts2, userVotes = votes2\<rparr>))"

definition resultsHandler :: "request \<Rightarrow> store \<Rightarrow> response \<times> store" where
  "resultsHandler r s =
     (if Method r \<noteq> ''GET'' then (http_Error ''Invalid request method'' 405, s)
      else (\<lparr>Status = 200, Payload = Counts (voteCounts s)\<rparr>, s))"

subsection \<open>The two operations of the spec\<close>

text \<open>
  The spec's CastVote and Snapshot are the handlers on the requests the transport
  passes on: a POST whose body decoded to the pair, and a GET. InvalidCategory is the
  response of line 49, and success the response of lines 72-73.
\<close>

definition CastVote :: "string \<Rightarrow> string \<Rightarrow> store \<Rightarrow> response \<times> store" where
  "CastVote userID category s =
     voteHandler \<lparr>Method = ''POST'', Body = Inr \<lparr>UserID = userID, Vote = category\<rparr>\<rparr> s"

definition Snapshot :: "store \<Rightarrow> response \<times> store" where
  "Snapshot s = resultsHandler \<lparr>Method = ''GET'', Body = Inl []\<rparr> s"

definition InvalidCategory :: response where
  "InvalidCategory = http_Error ''Invalid vote option'' 400"

definition Success :: response where
  "Success = \<lparr>Status = 200, Payload = Text ''Vote recorded successfully''\<rparr>"

subsection \<open>Runs\<close>

datatype call = Cast string string | Snap

fun step :: "call \<Rightarrow> store \<Rightarrow> store" where
  "step (Cast userID category) s = snd (CastVote userID category s)"
| "step Snap s = snd (Snapshot s)"

fun exec :: "call list \<Rightarrow> store \<Rightarrow> store" where
  "exec [] s = s"
| "exec (c # cs) s = exec cs (step c s)"

definition run :: "call list \<Rightarrow> store" where
  "run cs = exec cs initial"

subsection \<open>Notions used to state the properties\<close>

text \<open>
  The votes of user \<open>u\<close> that a run accepted, oldest first: the categories of the calls
  by \<open>u\<close> that the handler answered with success, in the store each call met.
\<close>

fun accepted :: "string \<Rightarrow> call list \<Rightarrow> store \<Rightarrow> string list" where
  "accepted u [] s = []"
| "accepted u (Cast v c # cs) s =
     (if v = u \<and> fst (CastVote v c s) = Success then [c] else []) @
     accepted u cs (step (Cast v c) s)"
| "accepted u (Snap # cs) s = accepted u cs (step Snap s)"

text \<open>
  The tally as the spec derives it from the user vote record: for each category, the
  number of users whose record holds it. \<open>total\<close> is the sum of the counts of a tally.
\<close>

definition histogram :: "(string \<rightharpoonup> string) \<Rightarrow> string \<Rightarrow> int" where
  "histogram votes k = int (card {u \<in> dom votes. votes u = Some k})"

definition total :: "(string \<rightharpoonup> int) \<Rightarrow> int" where
  "total m = (\<Sum>k \<in> dom m. index m k)"

text \<open>
  Two invariants of the store. \<open>wf\<close>: the counters have exactly the three labels as keys
  and every recorded vote is one of them. \<open>covered\<close>: finitely many users are recorded,
  and each counter (read as Go reads it) is at least the number of users recorded for
  its label.
\<close>

definition wf :: "store \<Rightarrow> bool" where
  "wf s \<longleftrightarrow> dom (voteCounts s) = categories \<and> ran (userVotes s) \<subseteq> categories"

definition supporters :: "store \<Rightarrow> string \<Rightarrow> string set" where
  "supporters s k = {u. userVotes s u = Some k}"

definition covered :: "store \<Rightarrow> bool" where
  "covered s \<longleftrightarrow>
     finite (dom (userVotes s)) \<and> (\<forall>k. int (card (supporters s k)) \<le> index (voteCounts s) k)"

section \<open>Basic facts\<close>

lemmas eval_defs = run_def initial_def CastVote_def Snapshot_def voteHandler_def
  resultsHandler_def increment_def decrement_def index_def http_Error_def Let_def

lemma labels_distinct:
  "Hot \<noteq> Mild" "Hot \<noteq> Cold" "Mild \<noteq> Cold" "Mild \<noteq> Hot" "Cold \<noteq> Hot" "Cold \<noteq> Mild"
  by (simp_all add: Hot_def Mild_def Cold_def)

lemma Success_neq_InvalidCategory: "Success \<noteq> InvalidCategory"
  by (simp add: Success_def InvalidCategory_def http_Error_def)

lemma CastVote_reject:
  "voteCounts s c = None \<Longrightarrow> CastVote u c s = (InvalidCategory, s)"
  by (simp add: CastVote_def voteHandler_def InvalidCategory_def)

lemma CastVote_accept:
  "voteCounts s c = Some n \<Longrightarrow>
   CastVote u c s =
     (Success,
      \<lparr>voteCounts =
         increment
           (case userVotes s u of
              Some p \<Rightarrow> if p \<noteq> c then decrement (voteCounts s) p else voteCounts s
            | None \<Rightarrow> voteCounts s) c,
       userVotes = (userVotes s)(u \<mapsto> c)\<rparr>)"
  by (simp add: CastVote_def voteHandler_def Success_def Let_def split: option.splits)

lemma Snapshot_eq: "Snapshot s = (\<lparr>Status = 200, Payload = Counts (voteCounts s)\<rparr>, s)"
  by (simp add: Snapshot_def resultsHandler_def)

subsection \<open>The key set and the recorded votes\<close>

lemma wf_initial: "wf initial"
  by (auto simp: wf_def initial_def categories_def)

lemma dom_increment: "dom (increment m k) = insert k (dom m)"
  by (simp add: increment_def)

lemma dom_decrement: "dom (decrement m k) = insert k (dom m)"
  by (simp add: decrement_def)

lemma ran_upd_subset: "ran m \<subseteq> A \<Longrightarrow> c \<in> A \<Longrightarrow> ran (m(u \<mapsto> c)) \<subseteq> A"
  by (auto simp: ran_def split: if_splits)

lemma wf_CastVote:
  assumes "wf s"
  shows "wf (snd (CastVote u c s))"
proof (cases "voteCounts s c")
  case None
  then show ?thesis using assms by (simp add: CastVote_reject)
next
  case (Some n)
  then have c: "c \<in> categories" using assms by (auto simp: wf_def)
  have prev: "p \<in> categories" if "userVotes s u = Some p" for p
    using that assms by (auto simp: wf_def ran_def)
  have "dom (increment
           (case userVotes s u of
              Some p \<Rightarrow> if p \<noteq> c then decrement (voteCounts s) p else voteCounts s
            | None \<Rightarrow> voteCounts s) c) = categories"
    using assms c prev by (auto simp: wf_def dom_increment dom_decrement split: option.splits)
  moreover have "ran ((userVotes s)(u \<mapsto> c)) \<subseteq> categories"
    using assms c by (intro ran_upd_subset) (simp_all add: wf_def)
  ultimately show ?thesis by (simp add: CastVote_accept [OF Some] wf_def)
qed

lemma wf_step: "wf s \<Longrightarrow> wf (step c s)"
  by (cases c) (simp_all add: wf_CastVote Snapshot_eq)

lemma wf_exec: "wf s \<Longrightarrow> wf (exec cs s)"
  by (induction cs arbitrary: s) (simp_all add: wf_step)

lemma wf_run: "wf (run cs)"
  by (simp add: run_def wf_exec wf_initial)

lemma run_valid: "c \<in> categories \<Longrightarrow> \<exists>n. voteCounts (run cs) c = Some n"
  using wf_run [of cs] by (auto simp: wf_def)

lemma run_invalid: "c \<notin> categories \<Longrightarrow> voteCounts (run cs) c = None"
  using wf_run [of cs] by (auto simp: wf_def)

lemma run_recorded: "userVotes (run cs) u = Some p \<Longrightarrow> p \<in> categories"
  using wf_run [of cs] by (auto simp: wf_def ran_def)

lemma index_Some: "m k = Some n \<Longrightarrow> index m k = n"
  by (simp add: index_def)

subsection \<open>Counters cover the recorded votes\<close>

lemma finite_supporters: "finite (dom (userVotes s)) \<Longrightarrow> finite (supporters s k)"
  by (rule finite_subset [of _ "dom (userVotes s)"]) (auto simp: supporters_def)

lemma covered_initial: "covered initial"
  by (simp add: covered_def initial_def supporters_def index_def)

lemma index_increment: "index (increment m c) k = (if k = c then index m c + 1 else index m k)"
  by (simp add: increment_def index_def)

lemma index_decrement: "index (decrement m c) k = (if k = c then index m c - 1 else index m k)"
  by (simp add: decrement_def index_def)

lemma supporters_first:
  "userVotes s u = None \<Longrightarrow>
   supporters \<lparr>voteCounts = m, userVotes = (userVotes s)(u \<mapsto> c)\<rparr> k =
     (if k = c then insert u (supporters s c) else supporters s k)"
  by (auto simp: supporters_def)

lemma supporters_same:
  "userVotes s u = Some c \<Longrightarrow>
   supporters \<lparr>voteCounts = m, userVotes = (userVotes s)(u \<mapsto> c)\<rparr> k = supporters s k"
  by (auto simp: supporters_def)

lemma supporters_switch:
  "userVotes s u = Some p \<Longrightarrow> p \<noteq> c \<Longrightarrow>
   supporters \<lparr>voteCounts = m, userVotes = (userVotes s)(u \<mapsto> c)\<rparr> k =
     (if k = c then insert u (supporters s c)
      else if k = p then supporters s p - {u} else supporters s k)"
  by (auto simp: supporters_def)

lemma covered_CastVote:
  assumes "covered s"
  shows "covered (snd (CastVote u c s))"
proof (cases "voteCounts s c")
  case None
  then show ?thesis using assms by (simp add: CastVote_reject)
next
  case (Some n)
  have fin: "finite (dom (userVotes s))" using assms by (simp add: covered_def)
  have le: "int (card (supporters s k)) \<le> index (voteCounts s) k" for k
    using assms by (simp add: covered_def)
  have ins: "int (card (insert u (supporters s c))) \<le> index (voteCounts s) c + 1"
    using le [of c] finite_supporters [OF fin, of c]
    by (cases "u \<in> supporters s c") (simp_all add: insert_absorb)
  show ?thesis
  proof (cases "userVotes s u")
    case None
    show ?thesis
      using fin le ins
      by (simp add: CastVote_accept [OF Some] None covered_def supporters_first [OF None]
          index_increment)
  next
    case prev: (Some p)
    show ?thesis
    proof (cases "p = c")
      case True
      show ?thesis
        using fin le prev True
        by (simp add: CastVote_accept [OF Some] covered_def supporters_same index_increment
            order.trans [OF le])
    next
      case False
      have mem: "u \<in> supporters s p" using prev by (simp add: supporters_def)
      have del: "int (card (supporters s p - {u})) \<le> index (voteCounts s) p - 1"
      proof -
        have "0 < card (supporters s p)"
          using finite_supporters [OF fin, of p] mem by (auto simp: card_gt_0_iff)
        then show ?thesis
          using le [of p] mem by (simp add: card_Diff_singleton)
      qed
      show ?thesis
        using fin le ins del prev False
        by (simp add: CastVote_accept [OF Some] covered_def supporters_switch index_increment
            index_decrement)
    qed
  qed
qed


lemma covered_step: "covered s \<Longrightarrow> covered (step c s)"
  by (cases c) (simp_all add: covered_CastVote Snapshot_eq)

lemma covered_exec: "covered s \<Longrightarrow> covered (exec cs s)"
  by (induction cs arbitrary: s) (simp_all add: covered_step)

lemma covered_run: "covered (run cs)"
  by (simp add: run_def covered_exec covered_initial)

subsection \<open>Counters stay in the machine range\<close>

text \<open>
  Along a run from the initial store every counter lies between 0 and the number of
  calls made, so a run of fewer than \<open>2^31\<close> calls never takes a Go \<open>int\<close> out of its
  range and the integer model agrees with the machine counters on it.
\<close>

lemma index_CastVote_le:
  "index (voteCounts (snd (CastVote u c s))) k \<le> index (voteCounts s) k + 1"
proof (cases "voteCounts s c")
  case None
  then show ?thesis by (simp add: CastVote_reject)
next
  case (Some n)
  show ?thesis
    by (simp add: CastVote_accept [OF Some] index_increment index_decrement
        split: option.splits)
qed

lemma index_step_le: "index (voteCounts (step c s)) k \<le> index (voteCounts s) k + 1"
  by (cases c) (simp_all add: index_CastVote_le Snapshot_eq)

lemma index_exec_le:
  "index (voteCounts (exec cs s)) k \<le> index (voteCounts s) k + int (length cs)"
proof (induction cs arbitrary: s)
  case Nil
  show ?case by simp
next
  case (Cons c cs)
  have "index (voteCounts (exec cs (step c s))) k
          \<le> index (voteCounts (step c s)) k + int (length cs)"
    by (rule Cons.IH)
  also have "\<dots> \<le> index (voteCounts s) k + 1 + int (length cs)"
    using index_step_le [of c s k] by simp
  finally show ?case by simp
qed

lemma run_counter_range:
  "0 \<le> index (voteCounts (run cs)) k \<and> index (voteCounts (run cs)) k \<le> int (length cs)"
proof
  have "int (card (supporters (run cs) k)) \<le> index (voteCounts (run cs)) k"
    using covered_run [of cs] by (simp add: covered_def)
  then show "0 \<le> index (voteCounts (run cs)) k" by simp
  have "index (voteCounts initial) k = 0"
    by (simp add: initial_def index_def)
  then show "index (voteCounts (run cs)) k \<le> int (length cs)"
    using index_exec_le [of cs initial k] by (simp add: run_def)
qed

subsection \<open>The record of a user along a run\<close>

lemma CastVote_userVotes:
  "userVotes (snd (CastVote v c s)) =
     (if fst (CastVote v c s) = Success then (userVotes s)(v \<mapsto> c) else userVotes s)"
proof (cases "voteCounts s c")
  case None
  then show ?thesis
    using Success_neq_InvalidCategory by (simp add: CastVote_reject)
next
  case (Some n)
  then show ?thesis by (simp add: CastVote_accept)
qed

lemma exec_userVotes:
  "userVotes (exec cs s) u =
     (if accepted u cs s = [] then userVotes s u else Some (last (accepted u cs s)))"
proof (induction cs arbitrary: s)
  case Nil
  show ?case by simp
next
  case (Cons x cs)
  show ?case
  proof (cases x)
    case (Cast v c)
    show ?thesis
      by (simp add: Cons.IH Cast CastVote_userVotes)
  next
    case Snap
    show ?thesis by (simp add: Cons.IH Snap Snapshot_eq)
  qed
qed

section \<open>The claims\<close>

text \<open>
  C1: the tally equals the histogram derived from the user vote record, and the sum of
  the counts equals the number of distinct users that have voted. The handler breaks
  this when a user votes again for the category already recorded: the comment at
  line 59 says that a previous vote is taken back, but the guard at line 60 skips the
  decrement for an equal vote while line 66 still increments. After user \<open>u1\<close> has voted
  Hot twice, the counter of Hot is 2 and the histogram gives 1; the counts sum to 2 and
  one user has voted.
\<close>

theorem revote_breaks_histogram:
  "voteCounts (run [Cast ''u1'' Hot, Cast ''u1'' Hot]) Hot = Some 2 \<and>
   histogram (userVotes (run [Cast ''u1'' Hot, Cast ''u1'' Hot])) Hot = 1 \<and>
   total (voteCounts (run [Cast ''u1'' Hot, Cast ''u1'' Hot])) = 2 \<and>
   card (dom (userVotes (run [Cast ''u1'' Hot, Cast ''u1'' Hot]))) = 1"
  by (simp add: eval_defs labels_distinct histogram_def total_def)

text \<open>
  C2: in every reachable store, when the record of user \<open>u\<close> holds category \<open>A\<close>, a
  further CastVote of \<open>u\<close> for \<open>A\<close> raises the counter of \<open>A\<close> by one and leaves the user
  vote record as it was.
\<close>

theorem revote_same_category_increments:
  assumes "userVotes (run cs) u = Some A"
  shows "\<exists>n. voteCounts (run cs) A = Some n \<and>
             voteCounts (snd (CastVote u A (run cs))) A = Some (n + 1) \<and>
             userVotes (snd (CastVote u A (run cs))) = userVotes (run cs)"
proof -
  from assms have "A \<in> categories" by (rule run_recorded)
  then obtain n where n: "voteCounts (run cs) A = Some n" using run_valid by blast
  have "(userVotes (run cs))(u \<mapsto> A) = userVotes (run cs)"
    using assms by (simp add: fun_upd_idem)
  then show ?thesis
    using assms n by (simp add: CastVote_accept [OF n] increment_def index_Some)
qed

theorem revote_same_category_increments_witness:
  "userVotes (run [Cast ''u1'' Hot]) ''u1'' = Some Hot \<and>
   voteCounts (run [Cast ''u1'' Hot]) Hot = Some 1 \<and>
   voteCounts (snd (CastVote ''u1'' Hot (run [Cast ''u1'' Hot]))) Hot = Some 2 \<and>
   userVotes (snd (CastVote ''u1'' Hot (run [Cast ''u1'' Hot]))) = userVotes (run [Cast ''u1'' Hot])"
proof -
  have h: "userVotes (run [Cast ''u1'' Hot]) ''u1'' = Some Hot"
    by (simp add: eval_defs)
  have n: "voteCounts (run [Cast ''u1'' Hot]) Hot = Some 1"
    by (simp add: eval_defs)
  show ?thesis using h n revote_same_category_increments [OF h] by simp
qed

text \<open>
  C3: in every reachable store, CastVote answers InvalidCategory exactly when the
  category is not one of the three labels; it then returns the store unchanged; and for
  each of the three labels it answers with success, whatever the user and the record.
\<close>

theorem CastVote_fails_iff_invalid:
  "(fst (CastVote u c (run cs)) = InvalidCategory \<longleftrightarrow> c \<notin> categories) \<and>
   (c \<notin> categories \<longrightarrow> CastVote u c (run cs) = (InvalidCategory, run cs)) \<and>
   (c \<in> categories \<longrightarrow> fst (CastVote u c (run cs)) = Success)"
proof (cases "c \<in> categories")
  case True
  then obtain n where "voteCounts (run cs) c = Some n" using run_valid by blast
  then show ?thesis using True by (simp add: CastVote_accept Success_neq_InvalidCategory)
next
  case False
  then show ?thesis by (simp add: CastVote_reject run_invalid)
qed

theorem CastVote_fails_iff_invalid_witness:
  "CastVote ''u1'' ''Warm'' (run [Cast ''u1'' Hot]) = (InvalidCategory, run [Cast ''u1'' Hot]) \<and>
   fst (CastVote ''u1'' Cold (run [Cast ''u1'' Hot])) = Success \<and>
   fst (CastVote ''u2'' Cold (run [Cast ''u1'' Hot])) = Success"
proof -
  have bad: "''Warm'' \<notin> categories"
    by (simp add: categories_def Hot_def Mild_def Cold_def)
  have good: "Cold \<in> categories" by (simp add: categories_def)
  show ?thesis
    using bad good
      CastVote_fails_iff_invalid [of "''u1''" "''Warm''" "[Cast ''u1'' Hot]"]
      CastVote_fails_iff_invalid [of "''u1''" Cold "[Cast ''u1'' Hot]"]
      CastVote_fails_iff_invalid [of "''u2''" Cold "[Cast ''u1'' Hot]"]
    by simp
qed

text \<open>
  C4: in every reachable store, when the record of user \<open>u\<close> holds \<open>A\<close> and \<open>B\<close> is another
  of the three labels, CastVote of \<open>u\<close> for \<open>B\<close> lowers the counter of \<open>A\<close> by one, raises
  the counter of \<open>B\<close> by one and leaves every other entry of the tally as it was.
\<close>

theorem switch_moves_one_vote:
  assumes "userVotes (run cs) u = Some A" and "B \<in> categories" and "B \<noteq> A"
  shows "\<exists>a b. voteCounts (run cs) A = Some a \<and> voteCounts (run cs) B = Some b \<and>
           voteCounts (snd (CastVote u B (run cs))) A = Some (a - 1) \<and>
           voteCounts (snd (CastVote u B (run cs))) B = Some (b + 1) \<and>
           (\<forall>k. k \<noteq> A \<and> k \<noteq> B \<longrightarrow>
              voteCounts (snd (CastVote u B (run cs))) k = voteCounts (run cs) k)"
proof -
  from assms(1) have "A \<in> categories" by (rule run_recorded)
  then obtain a where a: "voteCounts (run cs) A = Some a" using run_valid by blast
  obtain b where b: "voteCounts (run cs) B = Some b" using assms(2) run_valid by blast
  show ?thesis
    using assms a b
    by (simp add: CastVote_accept [OF b] increment_def decrement_def index_Some)
qed

theorem switch_moves_one_vote_witness:
  "userVotes (run [Cast ''u1'' Hot]) ''u1'' = Some Hot \<and> Cold \<in> categories \<and> Cold \<noteq> Hot \<and>
   voteCounts (run [Cast ''u1'' Hot]) Hot = Some 1 \<and>
   voteCounts (run [Cast ''u1'' Hot]) Cold = Some 0 \<and>
   voteCounts (snd (CastVote ''u1'' Cold (run [Cast ''u1'' Hot]))) Hot = Some 0 \<and>
   voteCounts (snd (CastVote ''u1'' Cold (run [Cast ''u1'' Hot]))) Cold = Some 1 \<and>
   voteCounts (snd (CastVote ''u1'' Cold (run [Cast ''u1'' Hot]))) Mild =
     voteCounts (run [Cast ''u1'' Hot]) Mild"
proof -
  have h1: "userVotes (run [Cast ''u1'' Hot]) ''u1'' = Some Hot" by (simp add: eval_defs)
  have h2: "Cold \<in> categories" by (simp add: categories_def)
  have h3: "Cold \<noteq> Hot" by (simp add: labels_distinct)
  have a: "voteCounts (run [Cast ''u1'' Hot]) Hot = Some 1" by (simp add: eval_defs)
  have b: "voteCounts (run [Cast ''u1'' Hot]) Cold = Some 0"
    by (simp add: eval_defs labels_distinct)
  show ?thesis
    using h1 h2 h3 a b switch_moves_one_vote [OF h1 h2 h3] by (simp add: labels_distinct)
qed

text \<open>
  C5: in every reachable store, when user \<open>u\<close> has no record and \<open>C\<close> is one of the three
  labels, CastVote of \<open>u\<close> for \<open>C\<close> raises the counter of \<open>C\<close> by one, adds the record entry
  from \<open>u\<close> to \<open>C\<close> and leaves every other entry of the tally as it was.
\<close>

theorem first_vote_creates_record:
  assumes "userVotes (run cs) u = None" and "C \<in> categories"
  shows "\<exists>n. voteCounts (run cs) C = Some n \<and>
           voteCounts (snd (CastVote u C (run cs))) C = Some (n + 1) \<and>
           userVotes (snd (CastVote u C (run cs))) = (userVotes (run cs))(u \<mapsto> C) \<and>
           (\<forall>k. k \<noteq> C \<longrightarrow>
              voteCounts (snd (CastVote u C (run cs))) k = voteCounts (run cs) k)"
proof -
  obtain n where n: "voteCounts (run cs) C = Some n" using assms(2) run_valid by blast
  show ?thesis
    using assms n by (simp add: CastVote_accept [OF n] increment_def index_Some)
qed

theorem first_vote_creates_record_witness:
  "userVotes (run [Cast ''u1'' Hot]) ''u2'' = None \<and> Hot \<in> categories \<and>
   voteCounts (run [Cast ''u1'' Hot]) Hot = Some 1 \<and>
   voteCounts (snd (CastVote ''u2'' Hot (run [Cast ''u1'' Hot]))) Hot = Some 2 \<and>
   userVotes (snd (CastVote ''u2'' Hot (run [Cast ''u1'' Hot]))) =
     (userVotes (run [Cast ''u1'' Hot]))(''u2'' \<mapsto> Hot) \<and>
   voteCounts (snd (CastVote ''u2'' Hot (run [Cast ''u1'' Hot]))) Cold =
     voteCounts (run [Cast ''u1'' Hot]) Cold"
proof -
  have h1: "userVotes (run [Cast ''u1'' Hot]) ''u2'' = None" by (simp add: eval_defs)
  have h2: "Hot \<in> categories" by (simp add: categories_def)
  have n: "voteCounts (run [Cast ''u1'' Hot]) Hot = Some 1" by (simp add: eval_defs)
  show ?thesis
    using h1 h2 n first_vote_creates_record [OF h1 h2] by (simp add: labels_distinct)
qed



text \<open>
  C7: for every user and every sequence of calls from the initial store in which at
  least one vote of that user was accepted, the user vote record holds for that user
  the category of the last accepted one. The record is a map, so it holds one category.
\<close>

theorem record_is_last_accepted:
  assumes "accepted u cs initial \<noteq> []"
  shows "userVotes (run cs) u = Some (last (accepted u cs initial))"
  using assms by (simp add: run_def exec_userVotes)

theorem record_is_last_accepted_witness:
  "accepted ''u1'' [Cast ''u1'' Hot, Cast ''u2'' Mild, Cast ''u1'' Cold, Cast ''u1'' ''Warm''] initial
     = [Hot, Cold] \<and>
   userVotes (run [Cast ''u1'' Hot, Cast ''u2'' Mild, Cast ''u1'' Cold, Cast ''u1'' ''Warm''])
     ''u1'' = Some Cold"
proof -
  have a: "accepted ''u1'' [Cast ''u1'' Hot, Cast ''u2'' Mild, Cast ''u1'' Cold,
      Cast ''u1'' ''Warm''] initial = [Hot, Cold]"
    by (simp add: eval_defs Success_def labels_distinct Hot_def Mild_def Cold_def)
  then have h: "accepted ''u1'' [Cast ''u1'' Hot, Cast ''u2'' Mild, Cast ''u1'' Cold,
      Cast ''u1'' ''Warm''] initial \<noteq> []"
    by simp
  show ?thesis using a record_is_last_accepted [OF h] by simp
qed

text \<open>
  C8: from the initial store, where the three counters are 0, the calls
  CastVote(u1, Hot), CastVote(u1, Cold), CastVote(u1, Cold), CastVote(u2, Hot) give the
  snapshots Hot 1, Mild 0, Cold 0; then Hot 0, Mild 0, Cold 1; then Hot 0, Mild 0,
  Cold 2; then Hot 1, Mild 0, Cold 2.
\<close>

theorem scenario_snapshots:
  "voteCounts initial = [Hot \<mapsto> 0, Mild \<mapsto> 0, Cold \<mapsto> 0] \<and>
   fst (Snapshot (run [Cast ''u1'' Hot])) =
     \<lparr>Status = 200, Payload = Counts [Hot \<mapsto> 1, Mild \<mapsto> 0, Cold \<mapsto> 0]\<rparr> \<and>
   fst (Snapshot (run [Cast ''u1'' Hot, Cast ''u1'' Cold])) =
     \<lparr>Status = 200, Payload = Counts [Hot \<mapsto> 0, Mild \<mapsto> 0, Cold \<mapsto> 1]\<rparr> \<and>
   fst (Snapshot (run [Cast ''u1'' Hot, Cast ''u1'' Cold, Cast ''u1'' Cold])) =
     \<lparr>Status = 200, Payload = Counts [Hot \<mapsto> 0, Mild \<mapsto> 0, Cold \<mapsto> 2]\<rparr> \<and>
   fst (Snapshot (run [Cast ''u1'' Hot, Cast ''u1'' Cold, Cast ''u1'' Cold, Cast ''u2'' Hot])) =
     \<lparr>Status = 200, Payload = Counts [Hot \<mapsto> 1, Mild \<mapsto> 0, Cold \<mapsto> 2]\<rparr>"
  by (simp add: eval_defs labels_distinct fun_eq_iff)

text \<open>
  C9: the tally starts with exactly the three labels as keys, each at 0, and after
  every sequence of CastVote and Snapshot calls its key set is still these three
  labels.
\<close>

theorem tally_keys_invariant:
  "voteCounts initial = [Hot \<mapsto> 0, Mild \<mapsto> 0, Cold \<mapsto> 0] \<and> card categories = 3 \<and>
   dom (voteCounts initial) = categories \<and> dom (voteCounts (run cs)) = categories"
  using wf_run [of cs] wf_initial
  by (simp add: wf_def initial_def categories_def labels_distinct)

text \<open>
  C10: the handler does not look at the user identifier. In every reachable store a
  CastVote with any identifier, the empty string included, and one of the three labels
  is answered with success, raises the counter of the label by one and leaves the
  record of that identifier at the label, whether or not the identifier had a record.
  Callers that all send the empty identifier therefore write the same record.
\<close>

theorem userID_not_validated:
  assumes "c \<in> categories"
  shows "fst (CastVote u c (run cs)) = Success \<and>
         userVotes (snd (CastVote u c (run cs))) u = Some c \<and>
         (\<exists>n. voteCounts (run cs) c = Some n \<and>
              voteCounts (snd (CastVote u c (run cs))) c = Some (n + 1))"
proof -
  obtain n where n: "voteCounts (run cs) c = Some n" using assms run_valid by blast
  show ?thesis
    using n by (simp add: CastVote_accept [OF n] increment_def decrement_def index_Some index_def
        split: option.splits)
qed

theorem userID_not_validated_witness:
  "Hot \<in> categories \<and>
   fst (CastVote [] Hot (run [Cast [] Cold])) = Success \<and>
   userVotes (run [Cast [] Cold]) [] = Some Cold \<and>
   userVotes (snd (CastVote [] Hot (run [Cast [] Cold]))) [] = Some Hot \<and>
   voteCounts (run [Cast [] Cold]) Hot = Some 0 \<and>
   voteCounts (snd (CastVote [] Hot (run [Cast [] Cold]))) Hot = Some 1"
proof -
  have h: "Hot \<in> categories" by (simp add: categories_def)
  have r: "userVotes (run [Cast [] Cold]) [] = Some Cold" by (simp add: eval_defs)
  have n: "voteCounts (run [Cast [] Cold]) Hot = Some 0" by (simp add: eval_defs labels_distinct)
  show ?thesis using h r n userID_not_validated [OF h, of "[]" "[Cast [] Cold]"] by simp
qed

end
